theory Spec2Isabelle
  imports Main "HOL-Library.Word"
begin

section \<open>libqueue: a bounded FIFO queue of payload items\<close>

text \<open>
  The development embeds \<^verbatim>\<open>src/libqueue/libqueue.c\<close>. The store holds one queue
  struct and the world outside it; every operation takes both and returns them updated.
  A queue pointer is null or the address of that struct; an item pointer is an
  \<open>option\<close> (\<open>None\<close> is the null pointer). The intrusive list \<^verbatim>\<open>q->head\<close> is the list
  of the items linked into it, oldest first: \<^verbatim>\<open>list_add_tail\<close> appends,
  \<^verbatim>\<open>list_first_entry_or_null\<close> reads the first element, \<^verbatim>\<open>list_del\<close> removes one. An
  item struct is a value: the outcome of its \<^verbatim>\<open>CALLOC\<close> is an input, and after
  \<^verbatim>\<open>free(item)\<close> nothing of it can be observed, so the store to \<^verbatim>\<open>opaque.iov_len\<close>
  that precedes it leaves nothing behind. Messages printed with \<^verbatim>\<open>printf\<close> are left out.
\<close>

subsection \<open>Data\<close>

type_synonym addr = nat
type_synonym byte = "8 word"
type_synonym cint = "32 word"
type_synonym fnptr = nat

abbreviation (input) NULL :: addr where
  "NULL \<equiv> 0"

text \<open>\<^verbatim>\<open>struct iovec\<close>: a base pointer and a length (\<^verbatim>\<open>size_t\<close>, never computed with here).\<close>

record iovec =
  iov_base :: addr
  iov_len :: nat

text \<open>
  Modelled from the spec: \<^verbatim>\<open>struct item\<close> is declared in \<^verbatim>\<open>libqueue.h\<close>, which is not
  under \<^verbatim>\<open>src/\<close>. The code names two members of it besides the list link: \<^verbatim>\<open>data\<close>, the
  buffer of the queue's own, and \<^verbatim>\<open>opaque\<close>, the handle of an allocation hook. They are
  taken as two members of the struct; \<^verbatim>\<open>CALLOC\<close> zeroes both.
\<close>

record item =
  data :: iovec
  opaque :: iovec

definition zero_iovec :: iovec where
  "zero_iovec = \<lparr>iov_base = NULL, iov_len = 0\<rparr>"

text \<open>
  Modelled from the spec: \<^verbatim>\<open>enum queue_mode\<close> is declared in \<^verbatim>\<open>libqueue.h\<close> too. It has
  the two modes the code tests for.
\<close>

datatype queue_mode = QUEUE_FULL_FLUSH | QUEUE_FULL_RING

text \<open>A \<^verbatim>\<open>struct queue *\<close>: null, or the address of the queue struct in the store.\<close>

datatype queue_ptr = Null_queue | Queue_ptr

text \<open>
  Modelled from the spec: \<^verbatim>\<open>struct queue\<close> is declared in \<^verbatim>\<open>libqueue.h\<close> as well; its
  members are those the code reads and writes. The counters are C \<^verbatim>\<open>int\<close>s: 32-bit
  words read by \<open>sint\<close> and compared by \<open>\<le>s\<close>; \<^verbatim>\<open>++\<close> and \<^verbatim>\<open>--\<close> are written as the
  wrapping word operations (C leaves their overflow undefined). A hook is a function
  pointer, known by its address only. The mutex is held wherever the code holds it; the
  condition variable appears as the outcomes of the waits on it, see below.
\<close>

record queue =
  head :: "item list"
  depth :: cint
  max_depth :: cint
  mode :: queue_mode
  alloc_hook :: "fnptr option"
  free_hook :: "fnptr option"

definition QUEUE_MAX_DEPTH :: cint where
  "QUEUE_MAX_DEPTH = 200"

subsection \<open>The world outside the queue\<close>

text \<open>
  The calls that leave the file, in the order they are made, and the payload buffers that
  \<^verbatim>\<open>memdup\<close> has allocated and \<^verbatim>\<open>free\<close> has not yet released.
\<close>

datatype call =
    Call_alloc_hook fnptr "byte list" nat addr
  | Call_free_hook fnptr addr
  | Call_memdup "byte list" nat addr
  | Call_free addr

record world =
  heap :: "addr \<rightharpoonup> byte list"
  calls :: "call list"

definition world0 :: world where
  "world0 = \<lparr>heap = Map.empty, calls = []\<rparr>"

text \<open>
  Modelled from the spec: \<^verbatim>\<open>memdup\<close> is declared outside \<^verbatim>\<open>src/\<close>. It duplicates
  \<open>len\<close> bytes of the caller's data into a new buffer and returns its address, or the
  null pointer when the allocation fails. The address \<open>p\<close> is what the allocator answers.
\<close>

definition memdup :: "byte list \<Rightarrow> nat \<Rightarrow> addr \<Rightarrow> world \<Rightarrow> addr \<times> world" where
  "memdup d len p w =
     (if p = NULL then (NULL, w\<lparr>calls := calls w @ [Call_memdup d len NULL]\<rparr>)
      else (p, w\<lparr>heap := (heap w)(p \<mapsto> take len d),
                  calls := calls w @ [Call_memdup d len p]\<rparr>))"

text \<open>The C library's \<^verbatim>\<open>free\<close>: the null pointer is accepted and nothing happens.\<close>

definition free_buf :: "addr \<Rightarrow> world \<Rightarrow> world" where
  "free_buf p w =
     (if p = NULL then w\<lparr>calls := calls w @ [Call_free NULL]\<rparr>
      else w\<lparr>heap := (heap w)(p := None), calls := calls w @ [Call_free p]\<rparr>)"

text \<open>
  What the outside answers to the calls of one \<^verbatim>\<open>item_alloc\<close>: whether \<^verbatim>\<open>CALLOC\<close> gave an
  item struct, the value the allocation hook returns, the address \<^verbatim>\<open>memdup\<close> returns.
\<close>

record answers =
  calloc_ok :: bool
  hook_ret :: addr
  memdup_ret :: addr

subsection \<open>Items\<close>

definition item_alloc ::
  "queue_ptr \<Rightarrow> byte list \<Rightarrow> nat \<Rightarrow> answers \<Rightarrow> queue \<Rightarrow> world \<Rightarrow> item option \<times> world" where
  "item_alloc qp d len x q w =
     (if qp = Null_queue then (None, w)
      else if \<not> calloc_ok x then (None, w)
      else (case alloc_hook q of
              Some f \<Rightarrow>
                (Some \<lparr>data = zero_iovec,
                       opaque = \<lparr>iov_base = hook_ret x, iov_len = len\<rparr>\<rparr>,
                 w\<lparr>calls := calls w @ [Call_alloc_hook f d len (hook_ret x)]\<rparr>)
            | None \<Rightarrow>
                (case memdup d len (memdup_ret x) w of
                   (p, w') \<Rightarrow>
                     (Some \<lparr>data = \<lparr>iov_base = p, iov_len = len\<rparr>,
                            opaque = zero_iovec\<rparr>, w'))))"

definition item_free :: "queue_ptr \<Rightarrow> item option \<Rightarrow> queue \<Rightarrow> world \<Rightarrow> world" where
  "item_free qp ip q w =
     (if qp = Null_queue then w
      else (case ip of
              None \<Rightarrow> w
            | Some it \<Rightarrow>
                (case free_hook q of
                   Some f \<Rightarrow> w\<lparr>calls := calls w @ [Call_free_hook f (iov_base (opaque it))]\<rparr>
                 | None \<Rightarrow> free_buf (iov_base (data it)) w)))"

subsection \<open>Configuration and construction\<close>

definition queue_set_mode :: "queue_ptr \<Rightarrow> queue_mode \<Rightarrow> queue \<Rightarrow> int \<times> queue" where
  "queue_set_mode qp m q =
     (if qp = Null_queue then (- 1, q) else (0, q\<lparr>mode := m\<rparr>))"

definition queue_set_hook ::
  "queue_ptr \<Rightarrow> fnptr option \<Rightarrow> fnptr option \<Rightarrow> queue \<Rightarrow> int \<times> queue" where
  "queue_set_hook qp alloc_cb free_cb q =
     (if qp = Null_queue then (- 1, q)
      else (0, q\<lparr>alloc_hook := alloc_cb, free_hook := free_cb\<rparr>))"

definition queue_set_depth :: "queue_ptr \<Rightarrow> cint \<Rightarrow> queue \<Rightarrow> int \<times> queue" where
  "queue_set_depth qp d q =
     (if qp = Null_queue then (- 1, q) else (0, q\<lparr>max_depth := d\<rparr>))"

text \<open>
  \<^verbatim>\<open>queue_create\<close>; the argument says whether \<^verbatim>\<open>CALLOC\<close> gave a queue struct, and the
  result is the struct the returned pointer points to, \<open>None\<close> for the null pointer.
\<close>

definition queue_create :: "bool \<Rightarrow> queue option" where
  "queue_create ok =
     (if \<not> ok then None
      else Some \<lparr>head = [], depth = 0, max_depth = QUEUE_MAX_DEPTH,
                 mode = QUEUE_FULL_FLUSH, alloc_hook = None, free_hook = None\<rparr>)"

subsection \<open>The sections under the lock\<close>

text \<open>
  The three regions between \<^verbatim>\<open>pthread_mutex_lock\<close> and \<^verbatim>\<open>pthread_mutex_unlock\<close>. The
  loop of \<^verbatim>\<open>queue_flush\<close> unlinks and frees every item from the oldest on.
\<close>

fun free_each :: "queue \<Rightarrow> item list \<Rightarrow> world \<Rightarrow> world" where
  "free_each q [] w = w"
| "free_each q (it # its) w = free_each q its (item_free Queue_ptr (Some it) q w)"

definition flush_locked :: "queue \<Rightarrow> world \<Rightarrow> queue \<times> world" where
  "flush_locked q w = (q\<lparr>head := [], depth := 0\<rparr>, free_each q (head q) w)"

definition push_locked :: "item \<Rightarrow> queue \<Rightarrow> queue" where
  "push_locked it q = q\<lparr>head := head q @ [it], depth := depth q + 1\<rparr>"

definition pop_locked :: "queue \<Rightarrow> item option \<times> queue" where
  "pop_locked q =
     (case head q of
        [] \<Rightarrow> (None, q)
      | it # its \<Rightarrow> (Some it, q\<lparr>head := its, depth := depth q - 1\<rparr>))"

subsection \<open>Waiting on the condition variable\<close>

text \<open>
  \<^verbatim>\<open>pthread_cond_timedwait\<close> gives the lock up and takes it again before it returns. One
  wait is described by its return value (0 when woken, \<^verbatim>\<open>ETIMEDOUT\<close>, \<^verbatim>\<open>EINTR\<close> or another
  error otherwise) and by the locked sections that other threads ran on this queue in the
  meantime: the insertion of a push, the release of all items of a flush, the removal of
  the oldest item by another consumer. A call that may wait is given the outcomes of its
  waits in order; its result is \<open>None\<close> when it is still waiting after the last of them.
\<close>

datatype env_op = Env_push item | Env_flush | Env_pop

datatype wait = Wait (wait_ret: int) (wait_ops: "env_op list")

fun env_step :: "env_op \<Rightarrow> queue \<times> world \<Rightarrow> queue \<times> world" where
  "env_step (Env_push it) (q, w) = (push_locked it q, w)"
| "env_step Env_flush (q, w) = flush_locked q w"
| "env_step Env_pop (q, w) = (snd (pop_locked q), w)"

fun env_run :: "env_op list \<Rightarrow> queue \<times> world \<Rightarrow> queue \<times> world" where
  "env_run [] s = s"
| "env_run (e # es) s = env_run es (env_step e s)"

text \<open>
  The loop of \<^verbatim>\<open>queue_pop\<close>: while the list is empty, wait; leave the loop at once when
  the wait returns 0, test the list again after any other return value.
\<close>

fun pop_wait :: "queue \<Rightarrow> world \<Rightarrow> wait list \<Rightarrow> (queue \<times> world) option" where
  "pop_wait q w [] = (if head q \<noteq> [] then Some (q, w) else None)"
| "pop_wait q w (e # es) =
     (if head q \<noteq> [] then Some (q, w)
      else (case env_run (wait_ops e) (q, w) of
              (q', w') \<Rightarrow> if wait_ret e = 0 then Some (q', w') else pop_wait q' w' es))"

subsection \<open>Queue operations\<close>

definition queue_flush :: "queue_ptr \<Rightarrow> queue \<Rightarrow> world \<Rightarrow> int \<times> queue \<times> world" where
  "queue_flush qp q w =
     (if qp = Null_queue then (- 1, q, w)
      else (case flush_locked q w of (q', w') \<Rightarrow> (0, q', w')))"

definition queue_pop ::
  "queue_ptr \<Rightarrow> queue \<Rightarrow> world \<Rightarrow> wait list \<Rightarrow> (item option \<times> queue \<times> world) option" where
  "queue_pop qp q w evs =
     (if qp = Null_queue then Some (None, q, w)
      else (case pop_wait q w evs of
              None \<Rightarrow> None
            | Some (q1, w1) \<Rightarrow>
                (case pop_locked q1 of (ip, q2) \<Rightarrow> Some (ip, q2, w1))))"

definition queue_pop_free ::
  "queue_ptr \<Rightarrow> queue \<Rightarrow> world \<Rightarrow> wait list \<Rightarrow> (queue \<times> world) option" where
  "queue_pop_free qp q w evs =
     (case queue_pop qp q w evs of
        None \<Rightarrow> None
      | Some (tmp, q', w') \<Rightarrow>
          (case tmp of
             None \<Rightarrow> Some (q', w')
           | Some it \<Rightarrow> Some (q', item_free qp tmp q' w')))"

text \<open>
  \<^verbatim>\<open>queue_push\<close>: the test of the depth and what it triggers come before the lock is
  taken for the insertion.
\<close>

definition queue_push ::
  "queue_ptr \<Rightarrow> item option \<Rightarrow> queue \<Rightarrow> world \<Rightarrow> wait list
     \<Rightarrow> (int \<times> queue \<times> world) option" where
  "queue_push qp ip q w evs =
     (if qp = Null_queue then Some (- 1, q, w)
      else (case ip of
              None \<Rightarrow> Some (- 1, q, w)
            | Some it \<Rightarrow>
                (case (if max_depth q \<le>s depth q
                       then (if mode q = QUEUE_FULL_FLUSH
                             then (case queue_flush qp q w of (r, q', w') \<Rightarrow> Some (q', w'))
                             else if mode q = QUEUE_FULL_RING
                             then queue_pop_free qp q w evs
                             else Some (q, w))
                       else Some (q, w)) of
                   None \<Rightarrow> None
                 | Some (q1, w1) \<Rightarrow> Some (0, push_locked it q1, w1))))"

text \<open>
  \<^verbatim>\<open>queue_get_depth\<close> reads through the pointer unchecked: \<open>None\<close> is the dereference of
  the null pointer.
\<close>

definition queue_get_depth :: "queue_ptr \<Rightarrow> queue \<Rightarrow> cint option" where
  "queue_get_depth qp q = (if qp = Null_queue then None else Some (depth q))"

text \<open>
  \<^verbatim>\<open>queue_destroy\<close>: the flush, then the lock, the condition variable and the struct
  are given back. No queue is left, only the world.
\<close>

definition queue_destroy :: "queue_ptr \<Rightarrow> queue \<Rightarrow> world \<Rightarrow> world" where
  "queue_destroy qp q w =
     (if qp = Null_queue then w
      else (case queue_flush qp q w of (r, q', w') \<Rightarrow> w'))"

subsection \<open>Sequences of calls\<close>

text \<open>Pushing the items of a list one after the other, and popping \<open>n\<close> times.\<close>

fun push_all ::
  "queue_ptr \<Rightarrow> item list \<Rightarrow> queue \<Rightarrow> world \<Rightarrow> wait list \<Rightarrow> (queue \<times> world) option" where
  "push_all qp [] q w evs = Some (q, w)"
| "push_all qp (it # its) q w evs =
     (case queue_push qp (Some it) q w evs of
        None \<Rightarrow> None
      | Some (r, q', w') \<Rightarrow> push_all qp its q' w' evs)"

fun pop_n ::
  "queue_ptr \<Rightarrow> nat \<Rightarrow> queue \<Rightarrow> world \<Rightarrow> wait list
     \<Rightarrow> (item option list \<times> queue \<times> world) option" where
  "pop_n qp 0 q w evs = Some ([], q, w)"
| "pop_n qp (Suc n) q w evs =
     (case queue_pop qp q w evs of
        None \<Rightarrow> None
      | Some (ip, q', w') \<Rightarrow>
          (case pop_n qp n q' w' evs of
             None \<Rightarrow> None
           | Some (ips, q'', w'') \<Rightarrow> Some (ip # ips, q'', w'')))"

text \<open>
  Any sequence of calls on the queue by one thread. A call that may wait carries the
  outcomes of its waits, and with them what other threads do to the queue meanwhile.
\<close>

datatype op =
    Op_push queue_ptr "item option" "wait list"
  | Op_pop queue_ptr "wait list"
  | Op_pop_free queue_ptr "wait list"
  | Op_flush queue_ptr
  | Op_set_mode queue_ptr queue_mode
  | Op_set_hook queue_ptr "fnptr option" "fnptr option"
  | Op_set_depth queue_ptr cint

fun step :: "op \<Rightarrow> queue \<times> world \<Rightarrow> (queue \<times> world) option" where
  "step (Op_push qp ip evs) (q, w) =
     (case queue_push qp ip q w evs of None \<Rightarrow> None | Some (r, q', w') \<Rightarrow> Some (q', w'))"
| "step (Op_pop qp evs) (q, w) =
     (case queue_pop qp q w evs of None \<Rightarrow> None | Some (ip, q', w') \<Rightarrow> Some (q', w'))"
| "step (Op_pop_free qp evs) (q, w) = queue_pop_free qp q w evs"
| "step (Op_flush qp) (q, w) = (case queue_flush qp q w of (r, q', w') \<Rightarrow> Some (q', w'))"
| "step (Op_set_mode qp m) (q, w) = Some (snd (queue_set_mode qp m q), w)"
| "step (Op_set_hook qp a f) (q, w) = Some (snd (queue_set_hook qp a f q), w)"
| "step (Op_set_depth qp d) (q, w) = Some (snd (queue_set_depth qp d q), w)"

fun run :: "op list \<Rightarrow> queue \<times> world \<Rightarrow> (queue \<times> world) option" where
  "run [] s = Some s"
| "run (c # cs) s = (case step c s of None \<Rightarrow> None | Some s' \<Rightarrow> run cs s')"


text \<open>The counter is the number of items in the list, as a C \<^verbatim>\<open>int\<close>.\<close>

definition depth_ok :: "queue \<Rightarrow> bool" where
  "depth_ok q \<longleftrightarrow> depth q = word_of_nat (length (head q))"

text \<open>The fields that configure a queue.\<close>

definition config :: "queue \<Rightarrow> queue_mode \<times> cint \<times> fnptr option \<times> fnptr option" where
  "config q = (mode q, max_depth q, alloc_hook q, free_hook q)"

subsection \<open>Concrete inputs\<close>

text \<open>The struct behind the pointer that a successful \<^verbatim>\<open>queue_create\<close> returns.\<close>

definition new_queue :: queue where
  "new_queue = the (queue_create True)"

text \<open>A new queue after \<^verbatim>\<open>queue_set_mode\<close> and \<^verbatim>\<open>queue_set_depth\<close>.\<close>

definition small_queue :: "queue_mode \<Rightarrow> cint \<Rightarrow> queue" where
  "small_queue m d =
     snd (queue_set_depth Queue_ptr d (snd (queue_set_mode Queue_ptr m new_queue)))"

text \<open>An item with a one-byte buffer at the given address.\<close>

definition item_of :: "addr \<Rightarrow> item" where
  "item_of p = \<lparr>data = \<lparr>iov_base = p, iov_len = 1\<rparr>, opaque = zero_iovec\<rparr>"

text \<open>A new queue after \<^verbatim>\<open>queue_set_hook\<close> has installed two hooks.\<close>

definition hooked_queue :: queue where
  "hooked_queue = snd (queue_set_hook Queue_ptr (Some 7) (Some 8) new_queue)"

text \<open>An item that holds the handle of an allocation hook.\<close>

definition handle_of :: "addr \<Rightarrow> item" where
  "handle_of p = \<lparr>data = zero_iovec, opaque = \<lparr>iov_base = p, iov_len = 1\<rparr>\<rparr>"

section \<open>Properties\<close>

lemmas small_queue_simps = small_queue_def new_queue_def queue_create_def queue_set_depth_def
  queue_set_mode_def QUEUE_MAX_DEPTH_def

lemmas hooked_queue_simps = hooked_queue_def queue_set_hook_def new_queue_def queue_create_def

subsection \<open>Arithmetic of the counters\<close>

lemma sint_inc: "sint (d::cint) < 2147483647 \<Longrightarrow> sint (d + 1) = sint d + 1"
  using sint_ge[of d] by (simp add: sint_word_ariths signed_take_bit_int_eq_self)

lemma sint_dec: "- 2147483648 < sint (d::cint) \<Longrightarrow> sint (d - 1) = sint d - 1"
  using sint_lt[of d] by (simp add: sint_word_ariths signed_take_bit_int_eq_self)

lemma sint_cint_le: "sint (m::cint) \<le> 2147483647"
  using sint_lt[of m] by simp

subsection \<open>First in, first out\<close>

lemma queue_push_below:
  assumes "sint (depth q) < sint (max_depth q)"
  shows "queue_push Queue_ptr (Some it) q w evs = Some (0, push_locked it q, w)"
  using assms by (simp add: queue_push_def word_sle_eq)

lemma push_all_below:
  "sint (depth q) = int (length (head q)) \<Longrightarrow>
   int (length (head q)) + int (length xs) \<le> sint (max_depth q) \<Longrightarrow>
   push_all Queue_ptr xs q w evs =
     Some (q\<lparr>head := head q @ xs, depth := depth q + word_of_nat (length xs)\<rparr>, w)"
proof (induction xs arbitrary: q)
  case Nil
  then show ?case by simp
next
  case (Cons x xs)
  have lt: "sint (depth q) < sint (max_depth q)"
    using Cons.prems by simp
  have inc: "sint (depth q + 1) = sint (depth q) + 1"
    using lt sint_cint_le [of "max_depth q"] by (intro sint_inc) simp
  let ?q = "push_locked x q"
  have a: "sint (depth ?q) = int (length (head ?q))"
    using Cons.prems(1) inc by (simp add: push_locked_def)
  have b: "int (length (head ?q)) + int (length xs) \<le> sint (max_depth ?q)"
    using Cons.prems(2) by (simp add: push_locked_def)
  show ?case
    using Cons.IH [OF a b] queue_push_below [OF lt, of x w evs]
    by (simp add: push_locked_def add.assoc)
qed

lemma queue_pop_nonempty:
  "head q = x # xs \<Longrightarrow>
   queue_pop Queue_ptr q w evs = Some (Some x, q\<lparr>head := xs, depth := depth q - 1\<rparr>, w)"
  by (cases evs) (simp_all add: queue_pop_def pop_locked_def)

lemma pop_n_prefix:
  "head q = xs @ ys \<Longrightarrow>
   pop_n Queue_ptr (length xs) q w evs =
     Some (map Some xs, q\<lparr>head := ys, depth := depth q - word_of_nat (length xs)\<rparr>, w)"
proof (induction xs arbitrary: q)
  case Nil
  then show ?case by simp
next
  case (Cons x xs)
  let ?q = "q\<lparr>head := xs @ ys, depth := depth q - 1\<rparr>"
  have p: "queue_pop Queue_ptr q w evs = Some (Some x, ?q, w)"
    using Cons.prems by (simp add: queue_pop_nonempty)
  have h: "head ?q = xs @ ys" by simp
  show ?case
    using Cons.IH [OF h] p by (simp add: diff_diff_eq add.commute)
qed

text \<open>
  Claim C1. Into an empty queue, push the items \<open>xs\<close>, no more of them than
  \<^verbatim>\<open>max_depth\<close>, so that the depth is below \<^verbatim>\<open>max_depth\<close> at every push. Every push
  returns without waiting, the queue then holds \<open>xs\<close>, and as many pops as there are
  items return exactly \<open>xs\<close>, the oldest first, and leave the queue as it was before
  the pushes. No call waits, whatever the waits would bring.
\<close>

theorem fifo_order:
  assumes "head q = []" and "depth q = 0"
    and "int (length xs) \<le> sint (max_depth q)"
  shows "\<exists>q'. push_all Queue_ptr xs q w evs = Some (q', w) \<and> head q' = xs \<and>
           pop_n Queue_ptr (length xs) q' w evs' = Some (map Some xs, q, w)"
proof -
  let ?q = "q\<lparr>head := xs, depth := word_of_nat (length xs)\<rparr>"
  have "push_all Queue_ptr xs q w evs = Some (?q, w)"
    using push_all_below [of q xs w evs] assms by simp
  moreover have "pop_n Queue_ptr (length xs) ?q w evs' = Some (map Some xs, q, w)"
    using pop_n_prefix [of ?q xs "[]" w evs'] assms by simp
  ultimately show ?thesis by simp
qed

theorem fifo_order_witness:
  "head new_queue = [] \<and> depth new_queue = 0 \<and>
   int (length [item_of 1, item_of 2, item_of 3]) \<le> sint (max_depth new_queue) \<and>
   (\<exists>q'. push_all Queue_ptr [item_of 1, item_of 2, item_of 3] new_queue world0 [] =
            Some (q', world0) \<and>
          head q' = [item_of 1, item_of 2, item_of 3] \<and>
          pop_n Queue_ptr (length [item_of 1, item_of 2, item_of 3]) q' world0 [] =
            Some (map Some [item_of 1, item_of 2, item_of 3], new_queue, world0))"
proof -
  have h1: "head new_queue = []"
    by (simp add: new_queue_def queue_create_def)
  have h2: "depth new_queue = 0"
    by (simp add: new_queue_def queue_create_def)
  have h3: "int (length [item_of 1, item_of 2, item_of 3]) \<le> sint (max_depth new_queue)"
    by (simp add: new_queue_def queue_create_def QUEUE_MAX_DEPTH_def)
  show ?thesis
    using h1 h2 h3 fifo_order [OF h1 h2 h3, of world0 "[]" "[]"] by blast
qed

subsection \<open>A full queue\<close>

text \<open>
  Claim C5. With \<^verbatim>\<open>max_depth\<close> 2 and mode \<^verbatim>\<open>QUEUE_FULL_FLUSH\<close>, pushing \<open>a\<close>, \<open>b\<close>, \<open>c\<close>
  into an empty queue leaves the queue holding \<open>c\<close> alone with depth 1: the third push
  finds the queue full and releases \<open>a\<close>, then \<open>b\<close>, before it inserts \<open>c\<close>.
\<close>

theorem flush_on_full:
  assumes "head q = []" and "depth q = 0" and "max_depth q = 2"
    and "mode q = QUEUE_FULL_FLUSH"
  shows "push_all Queue_ptr [a, b, c] q w evs =
           Some (q\<lparr>head := [c], depth := 1\<rparr>,
                 item_free Queue_ptr (Some b) q (item_free Queue_ptr (Some a) q w)) \<and>
         queue_get_depth Queue_ptr (q\<lparr>head := [c], depth := 1\<rparr>) = Some 1"
  using assms
  by (simp add: queue_push_def queue_flush_def flush_locked_def push_locked_def
      queue_get_depth_def word_sle_eq item_free_def)

theorem flush_on_full_witness:
  "head (small_queue QUEUE_FULL_FLUSH 2) = [] \<and> depth (small_queue QUEUE_FULL_FLUSH 2) = 0 \<and>
   max_depth (small_queue QUEUE_FULL_FLUSH 2) = 2 \<and>
   mode (small_queue QUEUE_FULL_FLUSH 2) = QUEUE_FULL_FLUSH \<and>
   push_all Queue_ptr [item_of 1, item_of 2, item_of 3] (small_queue QUEUE_FULL_FLUSH 2)
       world0 [] =
     Some ((small_queue QUEUE_FULL_FLUSH 2)\<lparr>head := [item_of 3], depth := 1\<rparr>,
           \<lparr>heap = Map.empty, calls = [Call_free 1, Call_free 2]\<rparr>)"
proof -
  let ?q = "small_queue QUEUE_FULL_FLUSH 2"
  have h1: "head ?q = []" by (simp add: small_queue_simps)
  have h2: "depth ?q = 0" by (simp add: small_queue_simps)
  have h3: "max_depth ?q = 2" by (simp add: small_queue_simps)
  have h4: "mode ?q = QUEUE_FULL_FLUSH" by (simp add: small_queue_simps)
  have w: "item_free Queue_ptr (Some (item_of 2)) ?q
             (item_free Queue_ptr (Some (item_of 1)) ?q world0) =
           \<lparr>heap = Map.empty, calls = [Call_free 1, Call_free 2]\<rparr>"
    by (simp add: item_free_def small_queue_simps item_of_def free_buf_def world0_def)
  show ?thesis
    using h1 h2 h3 h4 w
      flush_on_full [OF h1 h2 h3 h4, of "item_of 1" "item_of 2" "item_of 3" world0 "[]"]
    by simp
qed

text \<open>
  Claim C6. With \<^verbatim>\<open>max_depth\<close> 2 and mode \<^verbatim>\<open>QUEUE_FULL_RING\<close>, pushing \<open>a\<close>, \<open>b\<close>, \<open>c\<close>
  into an empty queue releases the oldest item \<open>a\<close> and nothing else, and leaves the
  queue holding \<open>b\<close> then \<open>c\<close>; two pops return \<open>b\<close>, then \<open>c\<close>.
\<close>

theorem ring_on_full:
  assumes "head q = []" and "depth q = 0" and "max_depth q = 2"
    and "mode q = QUEUE_FULL_RING"
  shows "push_all Queue_ptr [a, b, c] q w evs =
           Some (q\<lparr>head := [b, c], depth := 2\<rparr>, item_free Queue_ptr (Some a) q w) \<and>
         pop_n Queue_ptr 2 (q\<lparr>head := [b, c], depth := 2\<rparr>) w' evs' =
           Some ([Some b, Some c], q, w')"
  using assms
  apply (simp add: queue_push_def queue_pop_free_def push_locked_def
      word_sle_eq queue_pop_nonempty numeral_2_eq_2)
  apply (simp add: item_free_def)
  done

theorem ring_on_full_witness:
  "head (small_queue QUEUE_FULL_RING 2) = [] \<and> depth (small_queue QUEUE_FULL_RING 2) = 0 \<and>
   max_depth (small_queue QUEUE_FULL_RING 2) = 2 \<and>
   mode (small_queue QUEUE_FULL_RING 2) = QUEUE_FULL_RING \<and>
   push_all Queue_ptr [item_of 1, item_of 2, item_of 3] (small_queue QUEUE_FULL_RING 2)
       world0 [] =
     Some ((small_queue QUEUE_FULL_RING 2)\<lparr>head := [item_of 2, item_of 3], depth := 2\<rparr>,
           \<lparr>heap = Map.empty, calls = [Call_free 1]\<rparr>) \<and>
   pop_n Queue_ptr 2
       ((small_queue QUEUE_FULL_RING 2)\<lparr>head := [item_of 2, item_of 3], depth := 2\<rparr>)
       \<lparr>heap = Map.empty, calls = [Call_free 1]\<rparr> [] =
     Some ([Some (item_of 2), Some (item_of 3)], small_queue QUEUE_FULL_RING 2,
           \<lparr>heap = Map.empty, calls = [Call_free 1]\<rparr>)"
proof -
  let ?q = "small_queue QUEUE_FULL_RING 2"
  have h1: "head ?q = []" by (simp add: small_queue_simps)
  have h2: "depth ?q = 0" by (simp add: small_queue_simps)
  have h3: "max_depth ?q = 2" by (simp add: small_queue_simps)
  have h4: "mode ?q = QUEUE_FULL_RING" by (simp add: small_queue_simps)
  have w: "item_free Queue_ptr (Some (item_of 1)) ?q world0 =
           \<lparr>heap = Map.empty, calls = [Call_free 1]\<rparr>"
    by (simp add: item_free_def small_queue_simps item_of_def free_buf_def world0_def)
  show ?thesis
    using h1 h2 h3 h4 w
      ring_on_full [OF h1 h2 h3 h4, of "item_of 1" "item_of 2" "item_of 3" world0 "[]"
        "\<lparr>heap = Map.empty, calls = [Call_free 1]\<rparr>" "[]"]
    by simp
qed

subsection \<open>Waiting\<close>






lemma pop_wait_empty:
  "pop_wait q w evs = Some (q', w') \<Longrightarrow> head q' = [] \<Longrightarrow>
   head q = [] \<and> (\<exists>e\<in>set evs. wait_ret e = 0)"
proof (induction evs arbitrary: q w)
  case Nil
  then show ?case by (simp split: if_splits)
next
  case (Cons e evs)
  show ?case
  proof (cases "head q = []")
    case False
    then show ?thesis using Cons.prems by simp
  next
    case True
    obtain q1 w1 where r: "env_run (wait_ops e) (q, w) = (q1, w1)"
      by (cases "env_run (wait_ops e) (q, w)")
    show ?thesis
    proof (cases "wait_ret e = 0")
      case True
      then show ?thesis using \<open>head q = []\<close> by simp
    next
      case False
      then have "pop_wait q1 w1 evs = Some (q', w')"
        using Cons.prems(1) True r by simp
      then show ?thesis
        using Cons.IH Cons.prems(2) True by auto
    qed
  qed
qed

text \<open>
  Claim C2, amended. \<^verbatim>\<open>queue_pop\<close> returns no item at once for the null queue. On a
  queue whose list is not empty at the call it returns the oldest item without waiting.
  On an empty list it waits: after a wait that returns a timeout or an error it goes on as
  if called anew, so the list is tested again; after a wait that returns 0 it leaves the
  loop and returns the oldest item there is then, and no item when the list is still
  empty. It returns no item on a queue only so: the list was empty at the call, some
  wait returned 0, and the list is empty at the return.
\<close>

theorem pop_no_item:
  "queue_pop Null_queue q w evs = Some (None, q, w) \<and>
   (head q \<noteq> [] \<longrightarrow>
      queue_pop Queue_ptr q w evs =
        Some (Some (hd (head q)), q\<lparr>head := tl (head q), depth := depth q - 1\<rparr>, w)) \<and>
   (head q = [] \<and> wait_ret e \<noteq> 0 \<and> env_run (wait_ops e) (q, w) = (q1, w1) \<longrightarrow>
      queue_pop Queue_ptr q w (e # evs) = queue_pop Queue_ptr q1 w1 evs) \<and>
   (head q = [] \<and> wait_ret e = 0 \<and> env_run (wait_ops e) (q, w) = (q1, w1) \<longrightarrow>
      queue_pop Queue_ptr q w (e # evs) =
        Some (fst (pop_locked q1), snd (pop_locked q1), w1) \<and>
      (head q1 = [] \<longrightarrow> queue_pop Queue_ptr q w (e # evs) = Some (None, q1, w1))) \<and>
   (queue_pop Queue_ptr q w evs = Some (None, q', w') \<longrightarrow>
      head q = [] \<and> head q' = [] \<and> (\<exists>e\<in>set evs. wait_ret e = 0))"
proof -
  have null: "queue_pop Null_queue q w evs = Some (None, q, w)"
    by (simp add: queue_pop_def)
  have oldest: "queue_pop Queue_ptr q w evs =
        Some (Some (hd (head q)), q\<lparr>head := tl (head q), depth := depth q - 1\<rparr>, w)"
    if "head q \<noteq> []"
  proof -
    from that obtain x xs where "head q = x # xs" by (cases "head q") auto
    then show ?thesis by (simp add: queue_pop_nonempty)
  qed
  have again: "queue_pop Queue_ptr q w (e # evs) = queue_pop Queue_ptr q1 w1 evs"
    if "head q = [] \<and> wait_ret e \<noteq> 0 \<and> env_run (wait_ops e) (q, w) = (q1, w1)"
    using that by (simp add: queue_pop_def)
  have leave: "queue_pop Queue_ptr q w (e # evs) =
        Some (fst (pop_locked q1), snd (pop_locked q1), w1) \<and>
      (head q1 = [] \<longrightarrow> queue_pop Queue_ptr q w (e # evs) = Some (None, q1, w1))"
    if "head q = [] \<and> wait_ret e = 0 \<and> env_run (wait_ops e) (q, w) = (q1, w1)"
    using that by (simp add: queue_pop_def pop_locked_def split: prod.splits)
  have woken: "head q = [] \<and> head q' = [] \<and> (\<exists>e\<in>set evs. wait_ret e = 0)"
    if a: "queue_pop Queue_ptr q w evs = Some (None, q', w')"
  proof -
    from a obtain q2 where w: "pop_wait q w evs = Some (q2, w')"
      and p: "pop_locked q2 = (None, q')"
      by (auto simp: queue_pop_def split: option.splits prod.splits)
    from p have e: "head q2 = []" and "q' = q2"
      by (auto simp: pop_locked_def split: list.splits)
    with pop_wait_empty [OF w e] show ?thesis by simp
  qed
  from null oldest again leave woken show ?thesis by blast
qed

theorem pop_no_item_witness:
  "queue_pop Queue_ptr new_queue world0 [Wait 110 [], Wait 0 []] =
     Some (None, new_queue, world0) \<and>
   head new_queue = [] \<and> (\<exists>e\<in>set [Wait 110 [], Wait 0 []]. wait_ret e = 0) \<and>
   wait_ret (Wait 110 []) \<noteq> 0 \<and>
   env_run (wait_ops (Wait 110 [])) (new_queue, world0) = (new_queue, world0) \<and>
   queue_pop Queue_ptr new_queue world0 [Wait 110 [], Wait 0 []] =
     queue_pop Queue_ptr new_queue world0 [Wait 0 []] \<and>
   wait_ret (Wait 0 []) = 0 \<and>
   env_run (wait_ops (Wait 0 [])) (new_queue, world0) = (new_queue, world0) \<and>
   queue_pop Queue_ptr new_queue world0 [Wait 0 []] = Some (None, new_queue, world0) \<and>
   head (push_locked (item_of 1) new_queue) \<noteq> [] \<and>
   queue_pop Queue_ptr (push_locked (item_of 1) new_queue) world0 [] =
     Some (Some (item_of 1), new_queue, world0)"
proof -
  let ?evs = "[Wait 110 [], Wait 0 []]"
  let ?q = "push_locked (item_of 1) new_queue"
  have p: "queue_pop Queue_ptr new_queue world0 ?evs = Some (None, new_queue, world0)"
    by (simp add: queue_pop_def new_queue_def queue_create_def pop_locked_def)
  have m: "head new_queue = []"
    by (simp add: new_queue_def queue_create_def)
  have t: "wait_ret (Wait 110 []) \<noteq> 0 \<and>
      env_run (wait_ops (Wait 110 [])) (new_queue, world0) = (new_queue, world0)"
    by simp
  have z: "wait_ret (Wait 0 []) = 0 \<and>
      env_run (wait_ops (Wait 0 [])) (new_queue, world0) = (new_queue, world0)"
    by simp
  have n: "head ?q \<noteq> []"
    by (simp add: push_locked_def)
  have e: "?q\<lparr>head := tl (head ?q), depth := depth ?q - 1\<rparr> = new_queue"
    by (simp add: push_locked_def new_queue_def queue_create_def)
  have h: "hd (head ?q) = item_of 1"
    by (simp add: push_locked_def new_queue_def queue_create_def)
  have c1: "\<exists>e\<in>set ?evs. wait_ret e = 0"
    using p pop_no_item [of new_queue world0 ?evs "Wait 0 []" new_queue world0
      new_queue world0] by blast
  have c2: "queue_pop Queue_ptr new_queue world0 ?evs =
      queue_pop Queue_ptr new_queue world0 [Wait 0 []]"
    using m t pop_no_item [of new_queue world0 "[Wait 0 []]" "Wait 110 []" new_queue world0
      new_queue world0] by blast
  have c3: "queue_pop Queue_ptr new_queue world0 [Wait 0 []] = Some (None, new_queue, world0)"
    using m z pop_no_item [of new_queue world0 "[]" "Wait 0 []" new_queue world0
      new_queue world0] by blast
  have c4: "queue_pop Queue_ptr ?q world0 [] =
      Some (Some (hd (head ?q)), ?q\<lparr>head := tl (head ?q), depth := depth ?q - 1\<rparr>, world0)"
    using n pop_no_item [of ?q world0 "[]" "Wait 0 []" new_queue world0
      new_queue world0] by blast
  have c5: "queue_pop Queue_ptr ?q world0 [] = Some (Some (item_of 1), new_queue, world0)"
    using c4 e h by simp
  show ?thesis
    using p m t z n c1 c2 c3 c5 by blast
qed

text \<open>
  Claim C2 as stated fails: a consumer waiting on the empty new queue, woken (return
  value 0) while another thread flushes, leaves the loop and returns no item.
\<close>

theorem pop_woken_by_flush:
  "queue_pop Queue_ptr new_queue world0 [Wait 0 [Env_flush]] = Some (None, new_queue, world0)"
  by (simp add: queue_pop_def new_queue_def queue_create_def flush_locked_def pop_locked_def)

subsection \<open>The configuration is left alone\<close>

lemma config_flush_locked: "config (fst (flush_locked q w)) = config q"
  by (simp add: flush_locked_def config_def)

lemma config_push_locked: "config (push_locked it q) = config q"
  by (simp add: push_locked_def config_def)

lemma config_pop_locked: "config (snd (pop_locked q)) = config q"
  by (simp add: pop_locked_def config_def split: list.splits)

lemma config_env_step: "config (fst (env_step e (q, w))) = config q"
  by (cases e) (simp_all add: config_flush_locked config_push_locked config_pop_locked)

lemma config_env_run: "config (fst (env_run es (q, w))) = config q"
proof (induction es arbitrary: q w)
  case Nil
  then show ?case by simp
next
  case (Cons e es)
  obtain q1 w1 where s: "env_step e (q, w) = (q1, w1)"
    by (cases "env_step e (q, w)")
  then have "config q1 = config q"
    using config_env_step [of e q w] by simp
  then show ?case using Cons.IH [of q1 w1] s by simp
qed

lemma config_pop_wait: "pop_wait q w evs = Some (q', w') \<Longrightarrow> config q' = config q"
proof (induction evs arbitrary: q w)
  case Nil
  then show ?case by (simp split: if_splits)
next
  case (Cons e evs)
  obtain q1 w1 where r: "env_run (wait_ops e) (q, w) = (q1, w1)"
    by (cases "env_run (wait_ops e) (q, w)")
  then have c: "config q1 = config q"
    using config_env_run [of "wait_ops e" q w] by simp
  show ?case
  proof (cases "head q \<noteq> [] \<or> wait_ret e = 0")
    case True
    then show ?thesis using Cons.prems r c by (auto split: if_splits)
  next
    case False
    then have "pop_wait q1 w1 evs = Some (q', w')"
      using Cons.prems r by simp
    then show ?thesis using Cons.IH c by simp
  qed
qed

lemma config_queue_flush: "config (fst (snd (queue_flush qp q w))) = config q"
  using config_flush_locked [of q w]
  by (simp add: queue_flush_def split: prod.splits)

lemma config_queue_pop:
  "queue_pop qp q w evs = Some (ip, q', w') \<Longrightarrow> config q' = config q"
proof (cases qp)
  case Null_queue
  assume "queue_pop qp q w evs = Some (ip, q', w')"
  then show ?thesis using Null_queue by (simp add: queue_pop_def)
next
  case Queue_ptr
  assume "queue_pop qp q w evs = Some (ip, q', w')"
  then obtain q1 where w: "pop_wait q w evs = Some (q1, w')" and p: "pop_locked q1 = (ip, q')"
    using Queue_ptr by (auto simp: queue_pop_def split: option.splits prod.splits)
  from p have "config q' = config q1"
    using config_pop_locked [of q1] by simp
  then show ?thesis using config_pop_wait [OF w] by simp
qed

lemma config_queue_pop_free:
  "queue_pop_free qp q w evs = Some (q', w') \<Longrightarrow> config q' = config q"
  by (auto simp: queue_pop_free_def split: option.splits prod.splits dest: config_queue_pop)

lemma config_queue_push:
  "queue_push qp ip q w evs = Some (r, q', w') \<Longrightarrow> config q' = config q"
proof -
  assume a: "queue_push qp ip q w evs = Some (r, q', w')"
  show ?thesis
  proof (cases "qp = Null_queue \<or> ip = None")
    case True
    then show ?thesis using a by (auto simp: queue_push_def split: if_splits)
  next
    case False
    then obtain it where ip: "ip = Some it" and qp: "qp = Queue_ptr"
      by (cases qp; cases ip) auto
    from a ip qp obtain q1 where q': "q' = push_locked it q1" and
      c: "q1 = q \<or> q1 = fst (snd (queue_flush qp q w)) \<or> (\<exists>w1. queue_pop_free qp q w evs = Some (q1, w1))"
      by (auto simp: queue_push_def split: option.splits prod.splits if_splits)
    from c have "config q1 = config q"
      using config_queue_flush [of qp q w] config_queue_pop_free by auto
    then show ?thesis using q' by (simp add: config_push_locked)
  qed
qed

text \<open>
  Claim C10. \<^verbatim>\<open>queue_push\<close>, \<^verbatim>\<open>queue_pop\<close>, \<^verbatim>\<open>queue_pop_free\<close> and \<^verbatim>\<open>queue_flush\<close> leave
  the mode, \<^verbatim>\<open>max_depth\<close> and both hooks as they were, whatever other threads push, pop
  or flush during the waits; \<^verbatim>\<open>queue_set_mode\<close>, \<^verbatim>\<open>queue_set_depth\<close> and
  \<^verbatim>\<open>queue_set_hook\<close> store their arguments in their own fields and leave the others.
\<close>

theorem frame_config:
  "(queue_push qp ip q w evs = Some (r, q1, w1) \<longrightarrow> config q1 = config q) \<and>
   (queue_pop qp q w evs = Some (ip', q2, w2) \<longrightarrow> config q2 = config q) \<and>
   (queue_pop_free qp q w evs = Some (q3, w3) \<longrightarrow> config q3 = config q) \<and>
   config (fst (snd (queue_flush qp q w))) = config q \<and>
   config (snd (queue_set_mode Queue_ptr m q)) = (m, max_depth q, alloc_hook q, free_hook q) \<and>
   config (snd (queue_set_depth Queue_ptr d q)) = (mode q, d, alloc_hook q, free_hook q) \<and>
   config (snd (queue_set_hook Queue_ptr a f q)) = (mode q, max_depth q, a, f)"
  using config_queue_push [of qp ip q w evs r q1 w1] config_queue_pop [of qp q w evs ip' q2 w2]
    config_queue_pop_free [of qp q w evs q3 w3] config_queue_flush [of qp q w]
  by (simp add: queue_set_mode_def queue_set_depth_def queue_set_hook_def config_def)

theorem frame_config_witness:
  "queue_push Queue_ptr (Some (item_of 2)) (small_queue QUEUE_FULL_RING 1) world0 [Wait 0 []] =
     Some (0, push_locked (item_of 2) (small_queue QUEUE_FULL_RING 1), world0) \<and>
   config (push_locked (item_of 2) (small_queue QUEUE_FULL_RING 1)) =
     config (small_queue QUEUE_FULL_RING 1) \<and>
   queue_pop Queue_ptr (small_queue QUEUE_FULL_RING 1) world0 [Wait 0 []] =
     Some (None, small_queue QUEUE_FULL_RING 1, world0) \<and>
   queue_pop_free Queue_ptr (small_queue QUEUE_FULL_RING 1) world0 [Wait 0 []] =
     Some (small_queue QUEUE_FULL_RING 1, world0) \<and>
   config (fst (snd (queue_flush Queue_ptr (small_queue QUEUE_FULL_RING 1) world0))) =
     (QUEUE_FULL_RING, 1, None, None)"
proof -
  let ?q = "small_queue QUEUE_FULL_RING 1"
  let ?evs = "[Wait 0 []]"
  have a: "queue_push Queue_ptr (Some (item_of 2)) ?q world0 ?evs =
      Some (0, push_locked (item_of 2) ?q, world0)"
    by (simp add: queue_push_def small_queue_simps word_sle_eq)
  have b: "queue_pop Queue_ptr ?q world0 ?evs = Some (None, ?q, world0)"
    by (simp add: queue_pop_def small_queue_simps pop_locked_def)
  have c: "queue_pop_free Queue_ptr ?q world0 ?evs = Some (?q, world0)"
    by (simp add: queue_pop_free_def b)
  have d: "config ?q = (QUEUE_FULL_RING, 1, None, None)"
    by (simp add: config_def small_queue_simps)
  show ?thesis
    using a b c d
      frame_config [of Queue_ptr "Some (item_of 2)" ?q world0 ?evs 0
        "push_locked (item_of 2) ?q" world0 None ?q world0 ?q world0]
    by simp
qed

subsection \<open>The depth counter\<close>

lemma sint_word_of_nat: "n \<le> 2147483647 \<Longrightarrow> sint (word_of_nat n :: cint) = int n"
proof -
  assume "n \<le> 2147483647"
  then have "signed_take_bit 31 (int n) = int n"
    by (intro signed_take_bit_int_eq_self) simp_all
  moreover have "sint (word_of_nat n :: cint) = signed_take_bit 31 (int n)"
    using sint_sbintrunc' [where 'a = 32, of "int n"] by simp
  ultimately show ?thesis by simp
qed

lemma depth_ok_push_locked: "depth_ok q \<Longrightarrow> depth_ok (push_locked it q)"
  by (simp add: depth_ok_def push_locked_def)

lemma depth_ok_pop_locked: "depth_ok q \<Longrightarrow> depth_ok (snd (pop_locked q))"
  by (simp add: depth_ok_def pop_locked_def split: list.splits)

lemma depth_ok_flush_locked: "depth_ok (fst (flush_locked q w))"
  by (simp add: depth_ok_def flush_locked_def)

lemma depth_ok_env_step: "depth_ok q \<Longrightarrow> depth_ok (fst (env_step e (q, w)))"
  by (cases e) (simp_all add: depth_ok_push_locked depth_ok_pop_locked depth_ok_flush_locked)

lemma depth_ok_env_run: "depth_ok q \<Longrightarrow> depth_ok (fst (env_run es (q, w)))"
proof (induction es arbitrary: q w)
  case Nil
  then show ?case by simp
next
  case (Cons e es)
  obtain q1 w1 where s: "env_step e (q, w) = (q1, w1)"
    by (cases "env_step e (q, w)")
  then have "depth_ok q1"
    using depth_ok_env_step [OF Cons.prems, of e w] by simp
  then show ?case using Cons.IH [of q1 w1] s by simp
qed

lemma depth_ok_pop_wait:
  "depth_ok q \<Longrightarrow> pop_wait q w evs = Some (q', w') \<Longrightarrow> depth_ok q'"
proof (induction evs arbitrary: q w)
  case Nil
  then show ?case by (simp split: if_splits)
next
  case (Cons e evs)
  obtain q1 w1 where r: "env_run (wait_ops e) (q, w) = (q1, w1)"
    by (cases "env_run (wait_ops e) (q, w)")
  then have o1: "depth_ok q1"
    using depth_ok_env_run [OF Cons.prems(1), of "wait_ops e" w] by simp
  show ?case
  proof (cases "head q \<noteq> [] \<or> wait_ret e = 0")
    case True
    then show ?thesis using Cons.prems r o1 by (auto split: if_splits)
  next
    case False
    then have "pop_wait q1 w1 evs = Some (q', w')"
      using Cons.prems(2) r by simp
    then show ?thesis using Cons.IH o1 by blast
  qed
qed

lemma depth_ok_queue_pop:
  "depth_ok q \<Longrightarrow> queue_pop qp q w evs = Some (ip, q', w') \<Longrightarrow> depth_ok q'"
proof (cases qp)
  case Null_queue
  assume "depth_ok q" "queue_pop qp q w evs = Some (ip, q', w')"
  then show ?thesis using Null_queue by (auto simp: queue_pop_def)
next
  case Queue_ptr
  assume a: "depth_ok q" and "queue_pop qp q w evs = Some (ip, q', w')"
  then obtain q1 where w: "pop_wait q w evs = Some (q1, w')" and p: "pop_locked q1 = (ip, q')"
    using Queue_ptr by (auto simp: queue_pop_def split: option.splits prod.splits)
  have "depth_ok q1" using depth_ok_pop_wait [OF a w] .
  then show ?thesis using depth_ok_pop_locked [of q1] p by simp
qed

lemma depth_ok_queue_pop_free:
  "depth_ok q \<Longrightarrow> queue_pop_free qp q w evs = Some (q', w') \<Longrightarrow> depth_ok q'"
  by (auto simp: queue_pop_free_def split: option.splits prod.splits dest: depth_ok_queue_pop)

lemma depth_ok_queue_flush: "depth_ok q \<Longrightarrow> depth_ok (fst (snd (queue_flush qp q w)))"
  using depth_ok_flush_locked [of q w]
  by (simp add: queue_flush_def split: prod.splits)

lemma depth_ok_queue_push:
  assumes a: "depth_ok q"
    and r: "queue_push qp ip q w evs = Some (r, q', w')"
  shows "depth_ok q'"
proof (cases "qp = Null_queue \<or> ip = None")
  case True
  then have "q' = q" using r by (auto simp: queue_push_def split: if_splits)
  then show ?thesis using a by simp
next
  case False
  then obtain it where ip: "ip = Some it" and qp: "qp = Queue_ptr"
    by (cases qp; cases ip) auto
  from r ip qp obtain q1 where q': "q' = push_locked it q1" and
    c: "q1 = q \<or> q1 = fst (snd (queue_flush qp q w))
         \<or> (\<exists>w1. queue_pop_free qp q w evs = Some (q1, w1))"
    by (auto simp: queue_push_def split: option.splits prod.splits if_splits)
  from c have "depth_ok q1"
    using a depth_ok_queue_flush [OF a, of qp w] depth_ok_queue_pop_free [OF a] by auto
  then show ?thesis using q' by (simp add: depth_ok_push_locked)
qed

lemma depth_ok_setters:
  "depth_ok q \<Longrightarrow> depth_ok (snd (queue_set_mode qp m q))"
  "depth_ok q \<Longrightarrow> depth_ok (snd (queue_set_hook qp a f q))"
  "depth_ok q \<Longrightarrow> depth_ok (snd (queue_set_depth qp d q))"
  by (simp_all add: depth_ok_def queue_set_mode_def queue_set_hook_def queue_set_depth_def)

lemma depth_ok_step:
  "depth_ok q \<Longrightarrow> step c (q, w) = Some (q', w') \<Longrightarrow> depth_ok q'"
proof (cases c)
  case (Op_push qp ip evs)
  assume "depth_ok q" "step c (q, w) = Some (q', w')"
  then show ?thesis using Op_push depth_ok_queue_push [of q qp ip w evs _ q' w']
    by (auto split: option.splits)
next
  case (Op_pop qp evs)
  assume "depth_ok q" "step c (q, w) = Some (q', w')"
  then show ?thesis using Op_pop
    by (auto split: option.splits dest: depth_ok_queue_pop)
next
  case (Op_pop_free qp evs)
  assume "depth_ok q" "step c (q, w) = Some (q', w')"
  then show ?thesis using Op_pop_free
    by (auto dest: depth_ok_queue_pop_free)
next
  case (Op_flush qp)
  assume "depth_ok q" "step c (q, w) = Some (q', w')"
  then show ?thesis using Op_flush depth_ok_queue_flush [of q qp w]
    by (auto split: prod.splits)
next
  case (Op_set_mode qp m)
  assume "depth_ok q" "step c (q, w) = Some (q', w')"
  then show ?thesis using Op_set_mode by (auto simp: depth_ok_setters)
next
  case (Op_set_hook qp a f)
  assume "depth_ok q" "step c (q, w) = Some (q', w')"
  then show ?thesis using Op_set_hook by (auto simp: depth_ok_setters)
next
  case (Op_set_depth qp d)
  assume "depth_ok q" "step c (q, w) = Some (q', w')"
  then show ?thesis using Op_set_depth by (auto simp: depth_ok_setters)
qed

lemma depth_ok_run:
  "depth_ok q \<Longrightarrow> run cs (q, w) = Some (q', w') \<Longrightarrow> depth_ok q'"
proof (induction cs arbitrary: q w)
  case Nil
  then show ?case by simp
next
  case (Cons c cs)
  from Cons.prems(2) obtain q1 w1 where s: "step c (q, w) = Some (q1, w1)"
    and r: "run cs (q1, w1) = Some (q', w')"
    by (auto split: option.splits)
  have "depth_ok q1"
    using depth_ok_step [OF Cons.prems(1) s] .
  then show ?case using Cons.IH r by blast
qed

text \<open>
  Claim C3. After any sequence of pushes, pops, flushes and setter calls on a queue made
  by \<^verbatim>\<open>queue_create\<close>, whatever other threads push, pop or flush during the waits, the
  depth counter is the number of items in the list as a C \<^verbatim>\<open>int\<close>. When the list
  holds no more than \<open>2^31 - 1\<close> items, the most a C \<^verbatim>\<open>int\<close> can count, the counter
  equals the number of items, is not negative, and is what \<^verbatim>\<open>queue_get_depth\<close> returns.
\<close>

theorem depth_counts_items:
  assumes "queue_create ok = Some q0"
    and "run cs (q0, w) = Some (q, w')"
    and "length (head q) \<le> 2147483647"
  shows "depth q = word_of_nat (length (head q)) \<and>
         sint (depth q) = int (length (head q)) \<and> 0 \<le> sint (depth q) \<and>
         queue_get_depth Queue_ptr q = Some (depth q)"
proof -
  have "depth_ok q0"
    using assms(1) by (auto simp: queue_create_def depth_ok_def split: if_splits)
  then have "depth_ok q"
    using depth_ok_run assms(2) by blast
  then have d: "depth q = word_of_nat (length (head q))"
    by (simp add: depth_ok_def)
  then have "sint (depth q) = int (length (head q))"
    using sint_word_of_nat [OF assms(3)] by simp
  then show ?thesis using d by (simp add: queue_get_depth_def)
qed

theorem depth_counts_items_witness:
  "queue_create True = Some new_queue \<and>
   run [Op_set_depth Queue_ptr 1, Op_push Queue_ptr (Some (item_of 1)) [],
        Op_push Queue_ptr (Some (item_of 2)) [], Op_pop Queue_ptr [],
        Op_pop_free Queue_ptr [Wait 110 [Env_push (item_of 3), Env_push (item_of 4)]]]
       (new_queue, world0) =
     Some ((small_queue QUEUE_FULL_FLUSH 1)\<lparr>head := [item_of 4], depth := 1\<rparr>,
           \<lparr>heap = Map.empty, calls = [Call_free 1, Call_free 3]\<rparr>) \<and>
   length (head ((small_queue QUEUE_FULL_FLUSH 1)\<lparr>head := [item_of 4], depth := 1\<rparr>))
     \<le> 2147483647 \<and>
   sint (depth ((small_queue QUEUE_FULL_FLUSH 1)\<lparr>head := [item_of 4], depth := 1\<rparr>)) =
     int (length (head ((small_queue QUEUE_FULL_FLUSH 1)\<lparr>head := [item_of 4], depth := 1\<rparr>))) \<and>
   queue_get_depth Queue_ptr ((small_queue QUEUE_FULL_FLUSH 1)\<lparr>head := [item_of 4], depth := 1\<rparr>) =
     Some 1"
proof -
  let ?cs = "[Op_set_depth Queue_ptr 1, Op_push Queue_ptr (Some (item_of 1)) [],
        Op_push Queue_ptr (Some (item_of 2)) [], Op_pop Queue_ptr [],
        Op_pop_free Queue_ptr [Wait 110 [Env_push (item_of 3), Env_push (item_of 4)]]]"
  let ?w = "\<lparr>heap = Map.empty, calls = [Call_free 1, Call_free 3]\<rparr>"
  let ?q = "(small_queue QUEUE_FULL_FLUSH 1)\<lparr>head := [item_of 4], depth := 1\<rparr>"
  have c: "queue_create True = Some new_queue"
    by (simp add: new_queue_def queue_create_def)
  have r: "run ?cs (new_queue, world0) = Some (?q, ?w)"
    by (simp add: small_queue_simps queue_push_def queue_pop_def queue_pop_free_def
        queue_flush_def flush_locked_def push_locked_def pop_locked_def word_sle_eq
        item_free_def free_buf_def item_of_def world0_def)
  have n: "length (head ?q) \<le> 2147483647"
    by simp
  have d: "depth ?q = 1"
    by simp
  show ?thesis
    using c r n d depth_counts_items [OF c r n]
    by simp
qed

subsection \<open>Payloads and hooks\<close>

lemma free_each_hooked:
  "free_hook q = Some f \<Longrightarrow>
   free_each q its w =
     w\<lparr>calls := calls w @ map (\<lambda>it. Call_free_hook f (iov_base (opaque it))) its\<rparr>"
  by (induction its arbitrary: w) (simp_all add: item_free_def)

text \<open>
  Claim C7. On a queue with both hooks installed, \<^verbatim>\<open>item_alloc\<close> calls the allocation
  hook and stores its return value and the length in the item as they are; it does not
  call \<^verbatim>\<open>memdup\<close> and the heap is as before. \<^verbatim>\<open>item_free\<close> of that item calls the free
  hook once, on the stored handle, and does not call \<^verbatim>\<open>free\<close> on a payload; destroying
  the queue calls the free hook once for each item it holds, oldest first, and nothing
  else.
\<close>

theorem hook_fidelity:
  assumes "alloc_hook q = Some a" and "free_hook q = Some f" and "calloc_ok x"
  shows "item_alloc Queue_ptr d len x q w =
           (Some \<lparr>data = zero_iovec, opaque = \<lparr>iov_base = hook_ret x, iov_len = len\<rparr>\<rparr>,
            w\<lparr>calls := calls w @ [Call_alloc_hook a d len (hook_ret x)]\<rparr>) \<and>
         item_free Queue_ptr
             (Some \<lparr>data = zero_iovec, opaque = \<lparr>iov_base = hook_ret x, iov_len = len\<rparr>\<rparr>)
             q w1 =
           w1\<lparr>calls := calls w1 @ [Call_free_hook f (hook_ret x)]\<rparr> \<and>
         queue_destroy Queue_ptr q w2 =
           w2\<lparr>calls := calls w2 @
                 map (\<lambda>it. Call_free_hook f (iov_base (opaque it))) (head q)\<rparr>"
  using assms free_each_hooked [of q f "head q" w2]
  by (simp add: item_alloc_def item_free_def queue_destroy_def queue_flush_def
      flush_locked_def)

theorem hook_fidelity_witness:
  "alloc_hook hooked_queue = Some 7 \<and> free_hook hooked_queue = Some 8 \<and>
   calloc_ok \<lparr>calloc_ok = True, hook_ret = 42, memdup_ret = NULL\<rparr> \<and>
   item_alloc Queue_ptr [1, 2, 3] 3 \<lparr>calloc_ok = True, hook_ret = 42, memdup_ret = NULL\<rparr>
       hooked_queue world0 =
     (Some \<lparr>data = zero_iovec, opaque = \<lparr>iov_base = 42, iov_len = 3\<rparr>\<rparr>,
      \<lparr>heap = Map.empty, calls = [Call_alloc_hook 7 [1, 2, 3] 3 42]\<rparr>) \<and>
   item_free Queue_ptr (Some \<lparr>data = zero_iovec, opaque = \<lparr>iov_base = 42, iov_len = 3\<rparr>\<rparr>)
       hooked_queue \<lparr>heap = Map.empty, calls = [Call_alloc_hook 7 [1, 2, 3] 3 42]\<rparr> =
     \<lparr>heap = Map.empty, calls = [Call_alloc_hook 7 [1, 2, 3] 3 42, Call_free_hook 8 42]\<rparr> \<and>
   queue_destroy Queue_ptr (hooked_queue\<lparr>head := [handle_of 42, handle_of 43]\<rparr>) world0 =
     \<lparr>heap = Map.empty, calls = [Call_free_hook 8 42, Call_free_hook 8 43]\<rparr>"
proof -
  let ?x = "\<lparr>calloc_ok = True, hook_ret = 42, memdup_ret = NULL\<rparr>"
  let ?w = "\<lparr>heap = Map.empty, calls = [Call_alloc_hook 7 [1, 2, 3] 3 42]\<rparr>"
  let ?q = "hooked_queue\<lparr>head := [handle_of 42, handle_of 43]\<rparr>"
  have h1: "alloc_hook hooked_queue = Some 7" by (simp add: hooked_queue_simps)
  have h2: "free_hook hooked_queue = Some 8" by (simp add: hooked_queue_simps)
  have h3: "calloc_ok ?x" by simp
  have g1: "alloc_hook ?q = Some 7" by (simp add: hooked_queue_simps)
  have g2: "free_hook ?q = Some 8" by (simp add: hooked_queue_simps)
  show ?thesis
    using h1 h2 h3 hook_fidelity [OF h1 h2 h3, of "[1, 2, 3]" 3 world0 ?w world0]
      hook_fidelity [OF g1 g2 h3, of "[1, 2, 3]" 3 world0 ?w world0]
    by (simp add: world0_def handle_of_def)
qed

text \<open>
  Claim C4, amended. How an item is released is decided when it is released, by whether
  the queue has a free hook then; how it is created is decided by the allocation hook at
  creation. An item created without hooks and released with a free hook installed has
  the free hook called on its null handle, and its buffer stays allocated. An item
  created by an allocation hook and released with no free hook has \<^verbatim>\<open>free\<close> called on
  its null data pointer, and no hook is called. With no hook at either time the buffer is
  freed, with hooks at both times the free hook is called on the stored handle.
\<close>

theorem release_follows_free_hook:
  assumes "item_alloc Queue_ptr d len x q1 w = (Some it, w1)"
  shows "(alloc_hook q1 = None \<and> free_hook q2 = Some f \<longrightarrow>
            item_free Queue_ptr (Some it) q2 w1 =
              w1\<lparr>calls := calls w1 @ [Call_free_hook f NULL]\<rparr>) \<and>
         (alloc_hook q1 = Some a \<and> free_hook q2 = None \<longrightarrow>
            item_free Queue_ptr (Some it) q2 w1 =
              w1\<lparr>calls := calls w1 @ [Call_free NULL]\<rparr>) \<and>
         (alloc_hook q1 = None \<and> free_hook q2 = None \<longrightarrow>
            item_free Queue_ptr (Some it) q2 w1 = free_buf (memdup_ret x) w1) \<and>
         (alloc_hook q1 = Some a \<and> free_hook q2 = Some f \<longrightarrow>
            item_free Queue_ptr (Some it) q2 w1 =
              w1\<lparr>calls := calls w1 @ [Call_free_hook f (hook_ret x)]\<rparr>)"
  using assms
  by (auto simp: item_alloc_def item_free_def memdup_def zero_iovec_def free_buf_def
      split: if_splits option.splits)

theorem release_follows_free_hook_witness:
  "item_alloc Queue_ptr [1, 2, 3] 3 \<lparr>calloc_ok = True, hook_ret = 0, memdup_ret = 5\<rparr>
       new_queue world0 =
     (Some \<lparr>data = \<lparr>iov_base = 5, iov_len = 3\<rparr>, opaque = zero_iovec\<rparr>,
      \<lparr>heap = [5 \<mapsto> [1, 2, 3]], calls = [Call_memdup [1, 2, 3] 3 5]\<rparr>) \<and>
   alloc_hook new_queue = None \<and> free_hook hooked_queue = Some 8 \<and>
   free_hook new_queue = None \<and>
   item_free Queue_ptr (Some \<lparr>data = \<lparr>iov_base = 5, iov_len = 3\<rparr>, opaque = zero_iovec\<rparr>)
       hooked_queue \<lparr>heap = [5 \<mapsto> [1, 2, 3]], calls = [Call_memdup [1, 2, 3] 3 5]\<rparr> =
     \<lparr>heap = [5 \<mapsto> [1, 2, 3]], calls = [Call_memdup [1, 2, 3] 3 5, Call_free_hook 8 0]\<rparr> \<and>
   item_free Queue_ptr (Some \<lparr>data = \<lparr>iov_base = 5, iov_len = 3\<rparr>, opaque = zero_iovec\<rparr>)
       new_queue \<lparr>heap = [5 \<mapsto> [1, 2, 3]], calls = [Call_memdup [1, 2, 3] 3 5]\<rparr> =
     \<lparr>heap = Map.empty, calls = [Call_memdup [1, 2, 3] 3 5, Call_free 5]\<rparr>"
proof -
  let ?x = "\<lparr>calloc_ok = True, hook_ret = 0, memdup_ret = 5\<rparr>"
  let ?it = "\<lparr>data = \<lparr>iov_base = 5, iov_len = 3\<rparr>, opaque = zero_iovec\<rparr>"
  let ?w = "\<lparr>heap = [5 \<mapsto> [1, 2, 3]], calls = [Call_memdup [1, 2, 3] 3 5]\<rparr>"
  have a: "item_alloc Queue_ptr [1, 2, 3] 3 ?x new_queue world0 = (Some ?it, ?w)"
    by (simp add: item_alloc_def memdup_def new_queue_def queue_create_def world0_def)
  have h: "alloc_hook new_queue = None \<and> free_hook hooked_queue = Some 8 \<and>
      free_hook new_queue = None"
    by (simp add: hooked_queue_simps)
  show ?thesis
    using a h release_follows_free_hook [OF a, of hooked_queue 8 7]
      release_follows_free_hook [OF a, of new_queue 8 7]
    by (simp add: free_buf_def)
qed

text \<open>
  Claim C4 as stated fails: an item is created on a new queue without hooks, with its
  buffer at address 5; hooks are installed; the release calls the free hook on the null
  handle and the buffer at 5 is still allocated.
\<close>

theorem release_reevaluated:
  "item_alloc Queue_ptr [1, 2, 3] 3 \<lparr>calloc_ok = True, hook_ret = 0, memdup_ret = 5\<rparr>
       new_queue world0 =
     (Some \<lparr>data = \<lparr>iov_base = 5, iov_len = 3\<rparr>, opaque = zero_iovec\<rparr>,
      \<lparr>heap = [5 \<mapsto> [1, 2, 3]], calls = [Call_memdup [1, 2, 3] 3 5]\<rparr>) \<and>
   queue_set_hook Queue_ptr (Some 7) (Some 8) new_queue =
     (0, new_queue\<lparr>alloc_hook := Some 7, free_hook := Some 8\<rparr>) \<and>
   item_free Queue_ptr (Some \<lparr>data = \<lparr>iov_base = 5, iov_len = 3\<rparr>, opaque = zero_iovec\<rparr>)
       (new_queue\<lparr>alloc_hook := Some 7, free_hook := Some 8\<rparr>)
       \<lparr>heap = [5 \<mapsto> [1, 2, 3]], calls = [Call_memdup [1, 2, 3] 3 5]\<rparr> =
     \<lparr>heap = [5 \<mapsto> [1, 2, 3]],
      calls = [Call_memdup [1, 2, 3] 3 5, Call_free_hook 8 NULL]\<rparr>"
  by (simp add: item_alloc_def memdup_def new_queue_def queue_create_def world0_def
      queue_set_hook_def item_free_def zero_iovec_def)

text \<open>
  Claim C8, amended. On a queue without hooks \<^verbatim>\<open>item_alloc\<close> returns no item when the
  queue pointer is null or when the allocation of the item struct fails. When the item
  struct is allocated and \<^verbatim>\<open>memdup\<close> succeeds, it returns an item whose \<^verbatim>\<open>data\<close> holds
  the address of the new buffer and the given length, and the buffer holds the first \<open>len\<close>
  bytes of the caller's data (the caller provides at least that many).
\<close>

theorem item_alloc_owned_copy:
  assumes "alloc_hook q = None"
  shows "item_alloc Null_queue d len x q w = (None, w) \<and>
         (\<not> calloc_ok x \<longrightarrow> item_alloc Queue_ptr d len x q w = (None, w)) \<and>
         (calloc_ok x \<and> memdup_ret x \<noteq> NULL \<longrightarrow>
            (\<exists>it w'. item_alloc Queue_ptr d len x q w = (Some it, w') \<and>
               data it = \<lparr>iov_base = memdup_ret x, iov_len = len\<rparr> \<and>
               heap w' (memdup_ret x) = Some (take len d) \<and>
               calls w' = calls w @ [Call_memdup d len (memdup_ret x)]))"
  using assms by (simp add: item_alloc_def memdup_def)

theorem item_alloc_owned_copy_witness:
  "alloc_hook new_queue = None \<and>
   item_alloc Null_queue [1, 2, 3] 2 \<lparr>calloc_ok = True, hook_ret = 0, memdup_ret = 5\<rparr>
       new_queue world0 = (None, world0) \<and>
   (\<exists>it w'. item_alloc Queue_ptr [1, 2, 3] 2
               \<lparr>calloc_ok = True, hook_ret = 0, memdup_ret = 5\<rparr> new_queue world0 =
             (Some it, w') \<and>
      data it = \<lparr>iov_base = 5, iov_len = 2\<rparr> \<and> heap w' 5 = Some [1, 2] \<and>
      calls w' = [Call_memdup [1, 2, 3] 2 5])"
proof -
  let ?x = "\<lparr>calloc_ok = True, hook_ret = 0, memdup_ret = 5\<rparr>"
  have h: "alloc_hook new_queue = None"
    by (simp add: new_queue_def queue_create_def)
  show ?thesis
    using h item_alloc_owned_copy [OF h, of "[1, 2, 3]" 2 ?x world0]
    by (simp add: world0_def)
qed

text \<open>
  Claim C8 as stated fails: the queue pointer is not null and \<^verbatim>\<open>memdup\<close> would succeed,
  yet no item is returned, because the allocation of the item struct failed.
\<close>

theorem item_alloc_node_failure:
  "item_alloc Queue_ptr [1, 2, 3] 3 \<lparr>calloc_ok = False, hook_ret = 0, memdup_ret = 5\<rparr>
       new_queue world0 = (None, world0)"
  by (simp add: item_alloc_def)

text \<open>
  The return value of \<^verbatim>\<open>memdup\<close> is not tested: when it fails, the item is returned all
  the same, with a null data pointer and the length the caller asked for.
\<close>

lemma item_alloc_memdup_failure:
  "item_alloc Queue_ptr [1, 2, 3] 3 \<lparr>calloc_ok = True, hook_ret = 0, memdup_ret = NULL\<rparr>
       new_queue world0 =
     (Some \<lparr>data = \<lparr>iov_base = NULL, iov_len = 3\<rparr>, opaque = zero_iovec\<rparr>,
      \<lparr>heap = Map.empty, calls = [Call_memdup [1, 2, 3] 3 NULL]\<rparr>)"
  by (simp add: item_alloc_def memdup_def new_queue_def queue_create_def world0_def)

end
